theory Spec2Isabelle
  imports Main
begin

section \<open>The dispatcher of Cutelyst: a shallow embedding\<close>

text \<open>
  The theory follows the dispatcher's source file function by function. Qt's \<open>int\<close>
  positions are modelled by \<open>int\<close>: every position the code computes lies between
  \<open>-2\<close> and the length of a string, so no arithmetic wraps. A \<open>QString\<close> is a
  \<open>string\<close>; the null string and the empty string are both \<open>[]\<close>, except in the
  result of \<open>uriForAction\<close>, where the code tells them apart and the model uses
  \<open>string option\<close>.
\<close>

subsection \<open>The QString operations the dispatcher calls\<close>

text \<open>\<open>QString::remove(i, 1)\<close> for an index inside the string.\<close>

definition remove1_at :: "string \<Rightarrow> nat \<Rightarrow> string" where
  "remove1_at s i = take i s @ drop (Suc i) s"

text \<open>
  \<open>QString::mid(position, n)\<close>: a position beyond the end gives the null string; a
  negative position is clipped to 0 (shortening \<open>n\<close>); a negative \<open>n\<close>, or one
  that runs past the end, means "up to the end" (the comparison is unsigned in Qt).
\<close>

definition mid :: "string \<Rightarrow> int \<Rightarrow> int \<Rightarrow> string" where
  "mid s position n =
     (let len = int (length s) in
      if position > len then []
      else if position < 0 then
        (if n < 0 \<or> n + position \<ge> len then s
         else if n + position \<le> 0 then []
         else take (nat (n + position)) s)
      else if n < 0 \<or> n > len - position then drop (nat position) s
      else take (nat n) (drop (nat position) s))"

text \<open>
  \<open>QString::indexOf(ch, from)\<close>: forward search; a negative \<open>from\<close> counts from the
  end and is clipped to 0; \<open>-1\<close> when nothing is found.
\<close>

fun indexOf_scan :: "char \<Rightarrow> string \<Rightarrow> int \<Rightarrow> int" where
  "indexOf_scan c [] i = -1"
| "indexOf_scan c (x # xs) i = (if x = c then i else indexOf_scan c xs (i + 1))"

definition indexOf :: "string \<Rightarrow> char \<Rightarrow> int \<Rightarrow> int" where
  "indexOf s c from =
     (let len = int (length s);
          f = (if from < 0 then max (from + len) 0 else from)
      in if f < len then indexOf_scan c (drop (nat f) s) f else -1)"

text \<open>
  \<open>QString::lastIndexOf(ch, from)\<close>: backward search starting at index \<open>from\<close>
  (inclusive); a negative \<open>from\<close> counts from the end; a start outside the string
  gives \<open>-1\<close>.
\<close>

fun lastIndexOf_scan :: "char \<Rightarrow> string \<Rightarrow> nat \<Rightarrow> int" where
  "lastIndexOf_scan c s 0 = (if s ! 0 = c then 0 else -1)"
| "lastIndexOf_scan c s (Suc n) =
     (if s ! Suc n = c then int (Suc n) else lastIndexOf_scan c s n)"

definition lastIndexOf :: "string \<Rightarrow> char \<Rightarrow> int \<Rightarrow> int" where
  "lastIndexOf s c from =
     (let len = int (length s);
          f = (if from < 0 then from + len else from)
      in if f < 0 \<or> f \<ge> len then -1 else lastIndexOf_scan c s (nat f))"

text \<open>\<open>QString::split(sep)\<close> keeping empty parts: \<open>""\<close> splits into \<open>[""]\<close>.\<close>

fun split_q :: "char \<Rightarrow> string \<Rightarrow> string list" where
  "split_q c [] = [[]]"
| "split_q c (x # xs) =
     (if x = c then [] # split_q c xs
      else (case split_q c xs of
              [] \<Rightarrow> [[x]]
            | p # ps \<Rightarrow> (x # p) # ps))"

definition startsWith :: "string \<Rightarrow> char \<Rightarrow> bool" where
  "startsWith s c = (case s of [] \<Rightarrow> False | x # _ \<Rightarrow> x = c)"

subsection \<open>Actions, controllers, the request context\<close>

text \<open>
  An \<open>Action\<close> as far as the dispatcher reads it: its namespace, its name, the keys
  of its attribute map and the \<open>objectName\<close> of its controller.
\<close>

record action =
  action_ns :: string
  action_name :: string
  action_attributes :: "string list"
  action_controller :: string

text \<open>
  Modelled from the spec: \<open>Action::reverse\<close> (class \<open>Action\<close> is not among the
  sources). The spec's data model gives it as the derived key, namespace + "/" + name.
\<close>

definition reverse :: "action \<Rightarrow> string" where
  "reverse a = action_ns a @ ''/'' @ action_name a"

text \<open>
  A \<open>Controller*\<close> is modelled by its address together with what the dispatcher
  reads through it: \<open>objectName()\<close> and \<open>actions()\<close>.
\<close>

record controller =
  controller_addr :: nat
  objectName :: string
  actions :: "action list"

text \<open>
  An element of the context's stack is a \<open>Code*\<close>; \<open>qobject_cast<Action *>\<close>
  succeeds on the actions only.
\<close>

datatype code = ActionCode action | OtherCode string

record Context =
  ctx_action :: "action option"
  req_path :: string
  req_args :: "string list"
  req_match :: string
  ctx_stack :: "code list"
  ctx_error :: "string list"

text \<open>
  The answer of \<open>DispatchType::match\<close>. The dispatcher only asks whether it is
  \<open>ExactMatch\<close>; \<open>NoMatch\<close> stands for every other answer.
\<close>

datatype MatchType = NoMatch | ExactMatch

text \<open>
  A \<open>DispatchType\<close> is an abstract class whose implementations are not among the
  sources. Its virtual methods are parameters of the model: an object is its private
  state together with the methods, each a function of that state.
  \<open>registerAction\<close> returns the answer and the new state, \<open>match\<close> the answer and
  the context as it leaves it, \<open>uriForAction\<close> a string or \<open>None\<close> for the null
  string.
\<close>

record 's DispatchType =
  dt_state :: 's
  dt_registerAction :: "'s \<Rightarrow> action \<Rightarrow> bool \<times> 's"
  dt_inUse :: "'s \<Rightarrow> bool"
  dt_match :: "'s \<Rightarrow> Context \<Rightarrow> string \<Rightarrow> string list \<Rightarrow> MatchType \<times> Context"
  dt_uriForAction :: "'s \<Rightarrow> action \<Rightarrow> string list \<Rightarrow> string option"

text \<open>
  \<open>DispatcherPrivate\<close>. A \<open>QHash\<close> is a map; \<open>value(key)\<close> of a missing key is
  the default value (a null pointer, an empty list).
\<close>

record 's dispatcher =
  actionHash :: "string \<rightharpoonup> action"
  containerHash :: "string \<rightharpoonup> action list"
  rootActions :: "action list"
  constrollerHash :: "string \<rightharpoonup> nat"
  dispatchers :: "'s DispatchType list"
  showInternalActions :: bool

definition containerValue :: "(string \<rightharpoonup> action list) \<Rightarrow> string \<Rightarrow> action list" where
  "containerValue h k = (case h k of None \<Rightarrow> [] | Some xs \<Rightarrow> xs)"

subsection \<open>Namespace cleaning and lookup by name\<close>

text \<open>
  \<open>DispatcherPrivate::cleanNamespace\<close>: the \<open>for\<close> loop over \<open>i\<close>, with the
  string being edited, the bound \<open>nsSize\<close> and the flag \<open>lastWasSlash\<close> as loop
  state. After a removal the loop still increments \<open>i\<close>.
\<close>

function cleanNamespace_loop :: "string \<Rightarrow> nat \<Rightarrow> nat \<Rightarrow> bool \<Rightarrow> string" where
  "cleanNamespace_loop ret i nsSize lastWasSlash =
     (if i < nsSize then
        (if ret ! i = CHR ''/'' then
           (if lastWasSlash
            then cleanNamespace_loop (remove1_at ret i) (Suc i) (nsSize - 1) lastWasSlash
            else cleanNamespace_loop ret (Suc i) nsSize True)
         else cleanNamespace_loop ret (Suc i) nsSize False)
      else ret)"
  by pat_completeness auto
termination
  by (relation "measure (\<lambda>(ret, i, nsSize, l). nsSize - i)") auto

declare cleanNamespace_loop.simps [simp del]

definition cleanNamespace :: "string \<Rightarrow> string" where
  "cleanNamespace ns = cleanNamespace_loop ns 0 (length ns) True"

definition getAction :: "'s dispatcher \<Rightarrow> string \<Rightarrow> string \<Rightarrow> action option" where
  "getAction d nm nameSpace =
     (if nm = [] then None
      else actionHash d (cleanNamespace nameSpace @ ''/'' @ nm))"

definition getActionByPath :: "'s dispatcher \<Rightarrow> string \<Rightarrow> action option" where
  "getActionByPath d path =
     actionHash d (if startsWith path CHR ''/'' then remove1_at path 0 else path)"

subsection \<open>The namespace walk\<close>

text \<open>
  \<open>DispatcherPrivate::getContainers\<close>: the \<open>while (pos > 0)\<close> loop, then the cached
  root actions.
\<close>

function getContainers_loop :: "'s dispatcher \<Rightarrow> string \<Rightarrow> int \<Rightarrow> action list" where
  "getContainers_loop d ns pos =
     (if pos > 0 then
        containerValue (containerHash d) (mid ns 0 pos) @
        getContainers_loop d ns (lastIndexOf ns CHR ''/'' (pos - 1))
      else [])"
  by pat_completeness auto

lemma lastIndexOf_scan_bounds:
  "-1 \<le> lastIndexOf_scan c s n \<and> lastIndexOf_scan c s n \<le> int n"
  by (induction n) auto

lemma lastIndexOf_upper: "0 \<le> from \<Longrightarrow> lastIndexOf s c from \<le> from"
  using lastIndexOf_scan_bounds [of c s "nat from"]
  by (auto simp: lastIndexOf_def Let_def)

lemma lastIndexOf_lower: "-1 \<le> lastIndexOf s c from"
  using lastIndexOf_scan_bounds [of c s]
  by (auto simp: lastIndexOf_def Let_def)

lemma lastIndexOf_less: "0 < pos \<Longrightarrow> lastIndexOf s c (pos - 1) < pos"
  using lastIndexOf_upper [of "pos - 1" s c] by simp

termination getContainers_loop
proof (relation "measure (\<lambda>(d, ns, pos). nat pos)")
  show "wf (measure (\<lambda>(d :: 's dispatcher, ns :: string, pos :: int). nat pos))"
    by simp
next
  fix d :: "'s dispatcher" and ns :: string and pos :: int
  assume "0 < pos"
  moreover have "lastIndexOf ns CHR ''/'' (pos - 1) \<le> pos - 1"
    using \<open>0 < pos\<close> by (intro lastIndexOf_upper) simp
  ultimately show "((d, ns, lastIndexOf ns CHR ''/'' (pos - 1)), (d, ns, pos))
      \<in> measure (\<lambda>(d, ns, pos). nat pos)"
    by simp
qed

declare getContainers_loop.simps [simp del]

definition getContainers :: "'s dispatcher \<Rightarrow> string \<Rightarrow> action list" where
  "getContainers d ns =
     (if ns \<noteq> ''/'' then getContainers_loop d ns (int (length ns)) else []) @
     rootActions d"

text \<open>
  \<open>Dispatcher::getActions\<close>: the loop over the containers prepends each action of
  the wanted name to the result.
\<close>

fun getActions_loop :: "string \<Rightarrow> action list \<Rightarrow> action list \<Rightarrow> action list" where
  "getActions_loop nm [] ret = ret"
| "getActions_loop nm (a # containers) ret =
     getActions_loop nm containers (if action_name a = nm then a # ret else ret)"

definition getActions :: "'s dispatcher \<Rightarrow> string \<Rightarrow> string \<Rightarrow> action list" where
  "getActions d nm nameSpace =
     (if nm = [] then []
      else getActions_loop nm (getContainers d (cleanNamespace nameSpace)) [])"

subsection \<open>Resolving an operation name\<close>

text \<open>
  What ends the process or leaves defined behaviour: \<open>exit(1)\<close> after the critical
  message of \<open>setupActions\<close> (with the action's name, its controller and the
  controller that registered the key before), and \<open>Crash\<close> for a null pointer that
  is dereferenced or \<open>last()\<close>, \<open>takeLast()\<close> of an empty list.
\<close>

datatype error = AlreadyRegistered string string string | Crash

definition stripSlash :: "string \<Rightarrow> string" where
  "stripSlash ret = (if startsWith ret CHR ''/'' then remove1_at ret 0 else ret)"

text \<open>
  \<open>DispatcherPrivate::actionRel2Abs\<close>. A relative path is prefixed with the
  namespace of the action on top of the stack; the cast of another component gives a
  null pointer, which the code dereferences.
\<close>

definition actionRel2Abs :: "Context \<Rightarrow> string \<Rightarrow> error + string" where
  "actionRel2Abs ctx path =
     (if \<not> startsWith path CHR ''/'' then
        (case ctx_stack ctx of
           [] \<Rightarrow> Inl Crash
         | _ # _ \<Rightarrow>
            (case last (ctx_stack ctx) of
               ActionCode a \<Rightarrow> Inr (stripSlash (action_ns a @ ''/'' @ path))
             | OtherCode _ \<Rightarrow> Inl Crash))
      else Inr (stripSlash path))"

lemma indexOf_scan_bounds:
  "indexOf_scan c xs i = -1 \<or>
   (i \<le> indexOf_scan c xs i \<and> indexOf_scan c xs i < i + int (length xs))"
  by (induction xs arbitrary: i) (auto, force+)

lemma indexOf_bounds:
  "indexOf s c from = -1 \<or>
   (0 \<le> indexOf s c from \<and> indexOf s c from < int (length s) \<and> from \<le> indexOf s c from)"
proof -
  define f where "f = (if from < 0 then max (from + int (length s)) 0 else from)"
  show ?thesis
  proof (cases "f < int (length s)")
    case False
    then show ?thesis by (simp add: indexOf_def Let_def f_def)
  next
    case True
    have f0: "0 \<le> f" and ff: "from \<le> f" by (auto simp: f_def)
    have eq: "indexOf s c from = indexOf_scan c (drop (nat f) s) f"
      using True by (simp add: indexOf_def Let_def f_def)
    from indexOf_scan_bounds [of c "drop (nat f) s" f] True f0 ff show ?thesis
      unfolding eq by auto
  qed
qed

lemma length_mid_0: "0 \<le> n \<Longrightarrow> int (length (mid s 0 n)) \<le> n"
  by (auto simp: mid_def Let_def)

lemma mid_0_negative: "n < 0 \<Longrightarrow> mid s 0 n = s"
  by (simp add: mid_def Let_def)

text \<open>
  \<open>DispatcherPrivate::invokeAsPath\<close>: the \<open>do ... while (pos != -1)\<close> loop, with
  \<open>path\<close>, \<open>pos\<close> and \<open>lastPos\<close> as loop state. Each call is one run of the
  body; the test of the \<open>while\<close> decides whether the body runs again.
\<close>

function invokeAsPath_loop :: "'s dispatcher \<Rightarrow> string \<Rightarrow> int \<Rightarrow> int \<Rightarrow> action option" where
  "invokeAsPath_loop d path pos lastPos =
     (if pos = -1 then
        (case getAction d path [] of
           Some ret \<Rightarrow> Some ret
         | None \<Rightarrow>
            (let pos' = indexOf path CHR ''/'' (pos - 1)
             in if pos' \<noteq> -1 then invokeAsPath_loop d path pos' pos else None))
      else
        (let nm = mid path (pos + 1) lastPos;
             path' = mid path 0 pos
         in case getAction d nm path' of
              Some ret \<Rightarrow> Some ret
            | None \<Rightarrow>
               (let pos' = indexOf path' CHR ''/'' (pos - 1)
                in if pos' \<noteq> -1 then invokeAsPath_loop d path' pos' pos else None)))"
  by pat_completeness auto
termination
proof (relation "measure (\<lambda>(d, path, pos, lastPos). if pos < 0 then Suc (length path) else nat pos)",
    goal_cases)
  case 1
  show ?case by simp
next
  case (2 d path pos lastPos x)
  with indexOf_bounds [of path "CHR ''/''" "pos - 1"] show ?case
    by auto
next
  case (3 d path pos lastPos x xa xb)
  from 3 indexOf_bounds [of xa "CHR ''/''" "pos - 1"]
  have b: "0 \<le> xb" "xb < int (length xa)" "pos - 1 \<le> xb"
    by auto
  show ?case
  proof (cases "pos < 0")
    case True
    with 3 have "xa = path" by (simp add: mid_0_negative)
    with b True show ?thesis by auto
  next
    case False
    with length_mid_0 [of pos path] 3 have "int (length xa) \<le> pos" by simp
    with b False show ?thesis by auto
  qed
qed

declare invokeAsPath_loop.simps [simp del]

definition invokeAsPath ::
    "'s dispatcher \<Rightarrow> Context \<Rightarrow> string \<Rightarrow> string list \<Rightarrow> error + action option" where
  "invokeAsPath d ctx relativePath args =
     (case actionRel2Abs ctx relativePath of
        Inl e \<Rightarrow> Inl e
      | Inr path \<Rightarrow>
          Inr (invokeAsPath_loop d path (lastIndexOf path CHR ''/'' (-1)) (int (length path))))"

definition command2Action :: "'s dispatcher \<Rightarrow> Context \<Rightarrow> string \<Rightarrow> error + action option" where
  "command2Action d ctx command =
     (case actionHash d command of
        Some ret \<Rightarrow> Inr (Some ret)
      | None \<Rightarrow> invokeAsPath d ctx command (req_args ctx))"

subsection \<open>Forwarding and dispatching\<close>

text \<open>
  \<open>Dispatcher::forward(ctx, opname)\<close>. \<open>Action::dispatch\<close> belongs to the
  execution chain and is a parameter. A name that resolves to nothing is logged and
  the call returns \<open>false\<close>.
\<close>

definition forward ::
    "(action \<Rightarrow> Context \<Rightarrow> bool \<times> Context) \<Rightarrow> 's dispatcher \<Rightarrow> Context \<Rightarrow> string \<Rightarrow>
     error + bool \<times> Context" where
  "forward actionDispatch d ctx opname =
     (case command2Action d ctx opname of
        Inl e \<Rightarrow> Inl e
      | Inr (Some a) \<Rightarrow> Inr (actionDispatch a ctx)
      | Inr None \<Rightarrow> Inr (False, ctx))"

text \<open>
  Modelled from the spec: \<open>Context::error(message)\<close> (class \<open>Context\<close> is not among
  the sources) reports a message to the surrounding pipeline; the model appends it to
  the messages of the context.
\<close>

definition Context_error :: "Context \<Rightarrow> string \<Rightarrow> Context" where
  "Context_error ctx msg = ctx\<lparr>ctx_error := ctx_error ctx @ [msg]\<rparr>"

text \<open>\<open>Dispatcher::dispatch\<close>; \<open>tr\<close> is taken as the identity.\<close>

definition dispatch ::
    "(action \<Rightarrow> Context \<Rightarrow> bool \<times> Context) \<Rightarrow> 's dispatcher \<Rightarrow> Context \<Rightarrow>
     error + bool \<times> Context" where
  "dispatch actionDispatch d ctx =
     (case ctx_action ctx of
        Some a \<Rightarrow> forward actionDispatch d ctx (''/'' @ action_ns a @ ''/_DISPATCH'')
      | None \<Rightarrow>
          (let path = req_path ctx
           in Inr (False,
                if path = [] then Context_error ctx ''No default action defined''
                else Context_error ctx
                       (''Unknown resource '' @ [CHR 0x22] @ path @ [CHR 0x22] @ ''.''))))"

subsection \<open>Path resolution\<close>

text \<open>
  The inner loop of \<open>Dispatcher::prepareAction\<close> over the dispatch types: the first
  \<open>ExactMatch\<close> leaves both loops.
\<close>

fun prepareAction_types ::
    "'s DispatchType list \<Rightarrow> Context \<Rightarrow> string \<Rightarrow> string list \<Rightarrow> bool \<times> Context" where
  "prepareAction_types [] ctx actionPath args = (False, ctx)"
| "prepareAction_types (t # ts) ctx actionPath args =
     (case dt_match t (dt_state t) ctx actionPath args of
        (ExactMatch, ctx') \<Rightarrow> (True, ctx')
      | (NoMatch, ctx') \<Rightarrow> prepareAction_types ts ctx' actionPath args)"

text \<open>
  The \<open>Q_FOREVER\<close> loop, with \<open>pathParts\<close>, \<open>args\<close> and \<open>pos\<close> as loop state.
  \<open>fromPercentEncoding\<close> stands for \<open>QUrl::fromPercentEncoding\<close> of the Latin-1
  bytes of a segment, a parameter of the model.
\<close>

function prepareAction_loop ::
    "'s DispatchType list \<Rightarrow> (string \<Rightarrow> string) \<Rightarrow> string \<Rightarrow> string list \<Rightarrow> string list \<Rightarrow>
     int \<Rightarrow> Context \<Rightarrow> error + Context" where
  "prepareAction_loop ts fromPercentEncoding path pathParts args pos ctx =
     (case prepareAction_types ts ctx (mid path 0 pos) args of
        (True, ctx') \<Rightarrow> Inr ctx'
      | (False, ctx') \<Rightarrow>
          if pos \<le> 0 then Inr ctx'
          else
            (let p = lastIndexOf path CHR ''/'' (pos - 1);
                 pos' = (if p = -1 then 0 else p)
             in case pathParts of
                  [] \<Rightarrow> Inl Crash
                | _ # _ \<Rightarrow>
                    prepareAction_loop ts fromPercentEncoding path (butlast pathParts)
                      (fromPercentEncoding (last pathParts) # args) pos' ctx'))"
  by pat_completeness auto
termination
  by (relation "measure (\<lambda>(ts, dec, path, pathParts, args, pos, ctx). nat pos)")
    (auto simp: lastIndexOf_less zless_nat_conj)

declare prepareAction_loop.simps [simp del]

definition prepareAction ::
    "'s dispatcher \<Rightarrow> (string \<Rightarrow> string) \<Rightarrow> Context \<Rightarrow> error + Context" where
  "prepareAction d fromPercentEncoding ctx =
     (let path = req_path ctx;
          pathParts = [] # split_q CHR ''/'' path
      in prepareAction_loop (dispatchers d) fromPercentEncoding path pathParts []
           (int (length path)) ctx)"

subsection \<open>URI generation\<close>

fun uriForAction_loop :: "'s DispatchType list \<Rightarrow> action \<Rightarrow> string list \<Rightarrow> string option" where
  "uriForAction_loop [] a captures = None"
| "uriForAction_loop (t # ts) a captures =
     (case dt_uriForAction t (dt_state t) a captures of
        Some uri \<Rightarrow> Some (if uri = [] then ''/'' else uri)
      | None \<Rightarrow> uriForAction_loop ts a captures)"

definition uriForAction :: "'s dispatcher \<Rightarrow> action \<Rightarrow> string list \<Rightarrow> string option" where
  "uriForAction d a captures = uriForAction_loop (dispatchers d) a captures"

subsection \<open>Setup\<close>

text \<open>The debug message about an action that no dispatch type registered.\<close>

datatype event = NotRegistered string string

definition lifecycleNames :: "string list" where
  "lifecycleNames = [''_DISPATCH'', ''_BEGIN'', ''_AUTO'', ''_ACTION'', ''_END'']"

text \<open>The loop that offers an action to every dispatch type.\<close>

fun registerAction_all :: "'s DispatchType list \<Rightarrow> action \<Rightarrow> bool \<times> 's DispatchType list" where
  "registerAction_all [] a = (False, [])"
| "registerAction_all (t # ts) a =
     (let (r, s') = dt_registerAction t (dt_state t) a;
          (registered, ts') = registerAction_all ts a
      in (r \<or> registered, t\<lparr>dt_state := s'\<rparr> # ts'))"

text \<open>
  The body of the loop over the actions of a controller in
  \<open>Dispatcher::setupActions\<close>. The local list \<open>registeredActions\<close> is written and
  never read, and is left out.
\<close>

definition setupAction ::
    "'s dispatcher \<Rightarrow> bool \<Rightarrow> event list \<Rightarrow> action \<Rightarrow>
     error + 's dispatcher \<times> bool \<times> event list" where
  "setupAction d instanceUsed log a =
     (let (registered, d1) =
            (if actionHash d (reverse a) = None then
               (if ''Private'' \<notin> set (action_attributes a) then
                  (let (r, ts) = registerAction_all (dispatchers d) a
                   in (r, d\<lparr>dispatchers := ts\<rparr>))
                else (True, d))
             else (False, d))
      in if registered then
           Inr (d1\<lparr>actionHash := (actionHash d1)(action_ns a @ ''/'' @ action_name a \<mapsto> a),
                   containerHash := (containerHash d1)
                     (action_ns a \<mapsto> containerValue (containerHash d1) (action_ns a) @ [a])\<rparr>,
                True, log)
         else if action_name a \<notin> set lifecycleNames then
           Inr (d1, instanceUsed, log @ [NotRegistered (action_name a) (action_controller a)])
         else if showInternalActions d1 then
           (case actionHash d1 (reverse a) of
              None \<Rightarrow> Inl Crash
            | Some prev \<Rightarrow>
                Inl (AlreadyRegistered (action_name a) (action_controller a)
                       (action_controller prev)))
         else Inr (d1, instanceUsed, log))"

fun setupActions_actions ::
    "'s dispatcher \<Rightarrow> bool \<Rightarrow> event list \<Rightarrow> action list \<Rightarrow>
     error + 's dispatcher \<times> bool \<times> event list" where
  "setupActions_actions d instanceUsed log [] = Inr (d, instanceUsed, log)"
| "setupActions_actions d instanceUsed log (a # as) =
     (case setupAction d instanceUsed log a of
        Inl e \<Rightarrow> Inl e
      | Inr (d', instanceUsed', log') \<Rightarrow> setupActions_actions d' instanceUsed' log' as)"

fun setupActions_controllers ::
    "'s dispatcher \<Rightarrow> event list \<Rightarrow> controller list \<Rightarrow> error + 's dispatcher \<times> event list" where
  "setupActions_controllers d log [] = Inr (d, log)"
| "setupActions_controllers d log (c # cs) =
     (case setupActions_actions d False log (actions c) of
        Inl e \<Rightarrow> Inl e
      | Inr (d', instanceUsed, log') \<Rightarrow>
          setupActions_controllers
            (if instanceUsed
             then d'\<lparr>constrollerHash := (constrollerHash d')(objectName c \<mapsto> controller_addr c)\<rparr>
             else d')
            log' cs)"

text \<open>The statement that caches the root actions.\<close>

definition cacheRootActions :: "'s dispatcher \<Rightarrow> 's dispatcher" where
  "cacheRootActions d = d\<lparr>rootActions := containerValue (containerHash d) []\<rparr>"

text \<open>The \<open>while\<close> loop that removes every dispatch type that is not in use.\<close>

fun unregisterUnused :: "'s DispatchType list \<Rightarrow> 's DispatchType list" where
  "unregisterUnused [] = []"
| "unregisterUnused (t # ts) =
     (if \<not> dt_inUse t (dt_state t) then unregisterUnused ts else t # unregisterUnused ts)"

text \<open>
  \<open>Dispatcher::setupActions\<close>. \<open>setupFinished\<close> stands for
  \<open>ControllerPrivate::setupFinished\<close>, which is not among the sources: a parameter that
  maps the dispatcher it can query and a controller to the controller afterwards. The
  result is the dispatcher, the controllers after their notification and the debug
  messages; \<open>printActions\<close> only writes to the debug log and is left out.
\<close>

definition setupActions ::
    "('s dispatcher \<Rightarrow> controller \<Rightarrow> controller) \<Rightarrow> 's dispatcher \<Rightarrow> controller list \<Rightarrow>
     error + 's dispatcher \<times> controller list \<times> event list" where
  "setupActions setupFinished d controllers =
     (case setupActions_controllers d [] controllers of
        Inl e \<Rightarrow> Inl e
      | Inr (d1, log) \<Rightarrow>
          (let d2 = cacheRootActions d1;
               controllers' = map (setupFinished d2) controllers;
               d3 = d2\<lparr>dispatchers := unregisterUnused (dispatchers d2)\<rparr>
           in Inr (d3, controllers', log)))"

subsection \<open>The namespace chain of the specification\<close>

text \<open>
  The specification describes the namespace walk as truncating a namespace at each of
  its slash boundaries. \<open>namespacePrefixes\<close> follows these words: the non-empty
  prefixes of a namespace that end just before a slash, and the namespace itself, from
  the shortest to the longest.
\<close>

definition namespacePrefixes :: "string \<Rightarrow> string list" where
  "namespacePrefixes ns =
     map (\<lambda>p. take p ns)
       (filter (\<lambda>p. p = length ns \<or> ns ! p = CHR ''/'') [1..<Suc (length ns)])"

text \<open>
  A namespace as the specification writes it has no slash at its start and no two
  slashes in a row; \<open>singleSlashes True\<close> says so of a string (the flag tells whether
  a slash may not come next).
\<close>

fun singleSlashes :: "bool \<Rightarrow> string \<Rightarrow> bool" where
  "singleSlashes afterSlash [] = True"
| "singleSlashes afterSlash (c # cs) =
     (if c = CHR ''/'' then \<not> afterSlash \<and> singleSlashes True cs else singleSlashes False cs)"

text \<open>
  The specification of \<open>uriForAction\<close> speaks of the first result that is not null.
\<close>

definition firstNonNull :: "'a option list \<Rightarrow> 'a option" where
  "firstNonNull rs = (case filter (\<lambda>r. r \<noteq> None) rs of [] \<Rightarrow> None | r # _ \<Rightarrow> r)"

text \<open>
  The specification describes path resolution on the segments of the path: the full
  path is the first candidate prefix, with no arguments; a candidate that is not empty
  is followed by the candidate without its last segment, that segment, decoded, put in
  front of the arguments; the empty candidate is the last. \<open>join_q\<close> joins segments
  with slashes, \<open>shrink\<close> lists the candidates from a list of segments on, and
  \<open>candidates\<close> are those of a path. \<open>offers\<close> lists what the search asks: every
  candidate in this order, each with every dispatch type in registration order, and
  \<open>firstExactMatch\<close> asks \<open>match\<close> down that list up to the first exact match.
  \<open>tryCandidates\<close> is a step between the code and these words: it runs the inner
  loop of the code on each candidate.
\<close>

fun join_q :: "string list \<Rightarrow> string" where
  "join_q [] = []"
| "join_q [p] = p"
| "join_q (p # q # ps) = p @ ''/'' @ join_q (q # ps)"

lemma join_q_empty_segments: "join_q segs \<noteq> [] \<Longrightarrow> segs \<noteq> []"
  by auto

function shrink :: "(string \<Rightarrow> string) \<Rightarrow> string list \<Rightarrow> string list \<Rightarrow> (string \<times> string list) list" where
  "shrink dec segs args =
     (join_q segs, args) #
     (if join_q segs = [] then [] else shrink dec (butlast segs) (dec (last segs) # args))"
  by pat_completeness auto
termination
  by (relation "measure (\<lambda>(dec, segs, args). length segs)")
    (auto dest!: join_q_empty_segments simp: diff_less)

declare shrink.simps [simp del]

definition candidates :: "(string \<Rightarrow> string) \<Rightarrow> string \<Rightarrow> (string \<times> string list) list" where
  "candidates dec path = shrink dec (split_q CHR ''/'' path) []"

fun tryCandidates ::
    "'s DispatchType list \<Rightarrow> Context \<Rightarrow> (string \<times> string list) list \<Rightarrow> Context" where
  "tryCandidates ts ctx [] = ctx"
| "tryCandidates ts ctx ((p, args) # cs) =
     (case prepareAction_types ts ctx p args of
        (True, ctx') \<Rightarrow> ctx'
      | (False, ctx') \<Rightarrow> tryCandidates ts ctx' cs)"

definition offers ::
    "'s DispatchType list \<Rightarrow> (string \<times> string list) list \<Rightarrow>
     ('s DispatchType \<times> string \<times> string list) list" where
  "offers ts cs = concat (map (\<lambda>(p, args). map (\<lambda>t. (t, p, args)) ts) cs)"

fun firstExactMatch ::
    "Context \<Rightarrow> ('s DispatchType \<times> string \<times> string list) list \<Rightarrow> Context" where
  "firstExactMatch ctx [] = ctx"
| "firstExactMatch ctx ((t, p, args) # os) =
     (case dt_match t (dt_state t) ctx p args of
        (ExactMatch, ctx') \<Rightarrow> ctx'
      | (NoMatch, ctx') \<Rightarrow> firstExactMatch ctx' os)"

text \<open>
  Two conditions for a second call of \<open>setupActions\<close>. A dispatch type declines
  stably when an action that it declines in one state is declined in every state,
  which then stays as it is. An action is settled in a dispatcher when its reverse key
  is in the registry, or when it is not private and every dispatch type of the
  dispatcher declines it and keeps its state.
\<close>

definition declinesStably :: "'s DispatchType \<Rightarrow> bool" where
  "declinesStably t =
     (\<forall>s s' a. \<not> fst (dt_registerAction t s a) \<longrightarrow> dt_registerAction t s' a = (False, s'))"

definition settled :: "'s dispatcher \<Rightarrow> action \<Rightarrow> bool" where
  "settled d a =
     (actionHash d (reverse a) \<noteq> None \<or>
      (''Private'' \<notin> set (action_attributes a) \<and>
       (\<forall>t \<in> set (dispatchers d). dt_registerAction t (dt_state t) a = (False, dt_state t))))"

subsection \<open>Example values\<close>

text \<open>Small dispatchers and contexts on which the theorems below are instantiated.\<close>

definition mkAction :: "string \<Rightarrow> string \<Rightarrow> action" where
  "mkAction n m = \<lparr>action_ns = n, action_name = m, action_attributes = [], action_controller = ''Root''\<rparr>"

definition mkDispatcher :: "(string \<rightharpoonup> action) \<Rightarrow> (string \<rightharpoonup> action list) \<Rightarrow> action list \<Rightarrow> unit dispatcher" where
  "mkDispatcher h c r = \<lparr>actionHash = h, containerHash = c, rootActions = r,
     constrollerHash = Map.empty, dispatchers = [], showInternalActions = False\<rparr>"

definition mkContext :: "string \<Rightarrow> string \<Rightarrow> Context" where
  "mkContext p n = \<lparr>ctx_action = None, req_path = p, req_args = [], req_match = [],
     ctx_stack = [ActionCode (mkAction n ''current'')], ctx_error = []\<rparr>"

definition showDispatcher :: "unit dispatcher" where
  "showDispatcher = mkDispatcher Map.empty
     [''a/b'' \<mapsto> [mkAction ''a/b'' ''show''], ''a'' \<mapsto> [mkAction ''a'' ''show'']]
     [mkAction [] ''show'']"


text \<open>
  An example of a dispatch type, after the literal-path matcher of the specification:
  a table from paths to actions. It claims the actions that carry the attribute
  \<open>Path\<close>, matches a candidate path that is in the table (the empty candidate
  stands for the root path) and then sets the action, the arguments and the match of
  the request.
\<close>

definition literalPathType :: "(string \<times> action) list \<Rightarrow> (string \<times> action) list DispatchType" where
  "literalPathType table =
     \<lparr>dt_state = table,
      dt_registerAction = (\<lambda>s a.
         if ''Path'' \<in> set (action_attributes a)
         then (True, s @ [(''/'' @ stripSlash (reverse a), a)])
         else (False, s)),
      dt_inUse = (\<lambda>s. s \<noteq> []),
      dt_match = (\<lambda>s ctx path args.
         let p = (if path = [] then ''/'' else path)
         in case map_of s p of
              None \<Rightarrow> (NoMatch, ctx)
            | Some a \<Rightarrow>
                (ExactMatch, ctx\<lparr>ctx_action := Some a, req_args := args, req_match := p\<rparr>)),
      dt_uriForAction = (\<lambda>s a captures. map_option fst (find (\<lambda>e. snd e = a) s))\<rparr>"

definition mkTypedDispatcher :: "'s DispatchType list \<Rightarrow> bool \<Rightarrow> 's dispatcher" where
  "mkTypedDispatcher ts diag = \<lparr>actionHash = Map.empty, containerHash = Map.empty, rootActions = [],
     constrollerHash = Map.empty, dispatchers = ts, showInternalActions = diag\<rparr>"

definition uriDispatcher :: "(string \<times> action) list dispatcher" where
  "uriDispatcher = mkTypedDispatcher
     [literalPathType [(''/a/b'', mkAction ''a'' ''b'')],
      literalPathType [([], mkAction [] ''index''), (''/x'', mkAction [] ''x'')],
      literalPathType [(''/other'', mkAction [] ''index'')]] False"

definition mkController :: "nat \<Rightarrow> string \<Rightarrow> action list \<Rightarrow> controller" where
  "mkController addr nm as = \<lparr>controller_addr = addr, objectName = nm, actions = as\<rparr>"

definition privateAction :: "string \<Rightarrow> string \<Rightarrow> string \<Rightarrow> action" where
  "privateAction n m c = \<lparr>action_ns = n, action_name = m, action_attributes = [''Private''],
     action_controller = c\<rparr>"

definition diagDispatcher :: "(string \<times> action) list dispatcher" where
  "diagDispatcher = mkTypedDispatcher [literalPathType []] True"

definition quietDispatcher :: "(string \<times> action) list dispatcher" where
  "quietDispatcher = mkTypedDispatcher [literalPathType []] False"

definition exampleControllers :: "controller list" where
  "exampleControllers =
     [mkController 1 ''Root''
        [(mkAction [] ''index'')\<lparr>action_attributes := [''Path'']\<rparr>,
         mkAction [] ''helper'',
         privateAction [] ''_BEGIN'' ''Root''],
      mkController 2 ''Other''
        [privateAction [] ''_BEGIN'' ''Other'',
         (mkAction ''a'' ''b'')\<lparr>action_attributes := [''Path'']\<rparr>]]"

definition firstSetup :: "error + (string \<times> action) list dispatcher \<times> controller list \<times> event list" where
  "firstSetup = setupActions (\<lambda>d c. c) quietDispatcher exampleControllers"


definition pathContext :: "string \<Rightarrow> Context" where
  "pathContext p = mkContext p []"


definition orderedDispatcher :: "(string \<times> action) list dispatcher" where
  "orderedDispatcher = mkTypedDispatcher
     [literalPathType [],
      literalPathType [(''/a/b'', mkAction ''a'' ''b'')],
      literalPathType [(''/a/b'', mkAction ''other'' ''b''), (''/a/b/c'', mkAction ''other'' ''c'')]]
     False"




section \<open>Properties\<close>

subsection \<open>Lookup by name\<close>

text \<open>
  Claim C10. Whatever the registry and the namespace argument, \<open>getAction\<close> answers
  the null pointer and \<open>getActions\<close> the empty list when the name is empty. Both
  results hold for every dispatcher state, so no entry of the registry or of the
  containers takes part in them.
\<close>

theorem getAction_getActions_empty_name:
  "getAction d [] nameSpace = None \<and> getActions d [] nameSpace = []"
  by (simp add: getAction_def getActions_def)

subsection \<open>The order of \<open>getActions\<close>\<close>

lemma getActions_loop_eq:
  "getActions_loop nm xs ret = rev (filter (\<lambda>a. action_name a = nm) xs) @ ret"
  by (induction xs arbitrary: ret) auto

lemma mid_0_take: "n \<le> length s \<Longrightarrow> mid s 0 (int n) = take n s"
  by (auto simp: mid_def Let_def)

lemma getContainers_loop_step:
  assumes "Suc n \<le> length ns"
  shows "getContainers_loop d ns (int (Suc n)) =
     containerValue (containerHash d) (take (Suc n) ns) @
     getContainers_loop d ns (lastIndexOf_scan CHR ''/'' ns n)"
proof -
  have l: "lastIndexOf ns CHR ''/'' (int (Suc n) - 1) = lastIndexOf_scan CHR ''/'' ns n"
    using assms by (simp add: lastIndexOf_def Let_def)
  have m: "mid ns 0 (int (Suc n)) = take (Suc n) ns"
    using assms by (rule mid_0_take)
  have "getContainers_loop d ns (int (Suc n)) =
     containerValue (containerHash d) (mid ns 0 (int (Suc n))) @
     getContainers_loop d ns (lastIndexOf ns CHR ''/'' (int (Suc n) - 1))"
    by (subst getContainers_loop.simps) (simp del: of_nat_Suc)
  then show ?thesis
    unfolding l m .
qed

lemma getContainers_loop_scan:
  "n < length ns \<Longrightarrow>
   getContainers_loop d ns (lastIndexOf_scan CHR ''/'' ns n) =
   concat (map (\<lambda>p. containerValue (containerHash d) (take p ns))
     (rev (filter (\<lambda>p. ns ! p = CHR ''/'') [1..<Suc n])))"
proof (induction n)
  case 0
  then show ?case by (simp add: getContainers_loop.simps)
next
  case (Suc n)
  show ?case
  proof (cases "ns ! Suc n = CHR ''/''")
    case True
    have "getContainers_loop d ns (int (Suc n)) =
        containerValue (containerHash d) (take (Suc n) ns) @
        getContainers_loop d ns (lastIndexOf_scan CHR ''/'' ns n)"
      using Suc.prems by (intro getContainers_loop_step) simp
    with True Suc show ?thesis
      by simp
  next
    case False
    with Suc show ?thesis by simp
  qed
qed

lemma getContainers_prefixes:
  "ns \<noteq> ''/'' \<Longrightarrow> getContainers d ns =
     concat (map (containerValue (containerHash d)) (rev (namespacePrefixes ns))) @ rootActions d"
proof (cases ns rule: rev_cases)
  case Nil
  then show ?thesis by (simp add: getContainers_def namespacePrefixes_def getContainers_loop.simps)
next
  case (snoc ys y)
  assume "ns \<noteq> ''/''"
  define n where "n = length ys"
  have len: "length ns = Suc n" using snoc by (simp add: n_def)
  have f: "filter (\<lambda>p. p = Suc n \<or> ns ! p = CHR ''/'') [1..<Suc n] = filter (\<lambda>p. ns ! p = CHR ''/'') [1..<Suc n]"
    by (rule filter_cong) auto
  have "getContainers_loop d ns (int (Suc n)) =
      containerValue (containerHash d) ns @ getContainers_loop d ns (lastIndexOf_scan CHR ''/'' ns n)"
    using len getContainers_loop_step [of n ns d] by simp
  also have "getContainers_loop d ns (lastIndexOf_scan CHR ''/'' ns n) =
     concat (map (\<lambda>p. containerValue (containerHash d) (take p ns))
     (rev (filter (\<lambda>p. ns ! p = CHR ''/'') [1..<Suc n])))"
    using len by (intro getContainers_loop_scan) simp
  finally show ?thesis
    using \<open>ns \<noteq> ''/''\<close> len f
    by (simp add: getContainers_def namespacePrefixes_def rev_map comp_def del: of_nat_Suc)
qed

text \<open>
  Claim C3, as stated, asks for the matches of the deepest namespace first and those
  of the root namespace last. With an action named \<open>show\<close> in each of \<open>a/b\<close>,
  \<open>a\<close> and the root, the code answers the root's action first and the one of
  \<open>a/b\<close> last: the walk collects the containers from the deepest namespace to the
  root, and the loop of \<open>getActions\<close> prepends each match.
\<close>

theorem getActions_most_specific_first_counterexample:
  "getActions showDispatcher ''show'' ''a/b'' =
     [mkAction [] ''show'', mkAction ''a'' ''show'', mkAction ''a/b'' ''show''] \<and>
   getActions showDispatcher ''show'' ''a/b'' \<noteq>
     [mkAction ''a/b'' ''show'', mkAction ''a'' ''show'', mkAction [] ''show'']"
  by code_simp

lemma cleanNamespace_loop_clean:
  "singleSlashes l (drop i ret) \<Longrightarrow> n = length ret \<Longrightarrow> cleanNamespace_loop ret i n l = ret"
proof (induction ret i n l rule: cleanNamespace_loop.induct)
  case (1 ret i nsSize lastWasSlash)
  show ?case
  proof (cases "i < nsSize")
    case False
    then show ?thesis by (subst cleanNamespace_loop.simps) simp
  next
    case True
    with "1.prems" have d: "drop i ret = ret ! i # drop (Suc i) ret"
      by (simp add: Cons_nth_drop_Suc)
    show ?thesis
    proof (cases "ret ! i = CHR ''/''")
      case slash: True
      with "1.prems" d have nl: "\<not> lastWasSlash" and rest: "singleSlashes True (drop (Suc i) ret)"
        by auto
      from "1.IH"(2) [OF True slash nl rest "1.prems"(2)] True slash nl show ?thesis
        by (subst cleanNamespace_loop.simps) simp
    next
      case other: False
      with "1.prems" d have rest: "singleSlashes False (drop (Suc i) ret)" by auto
      from "1.IH"(3) [OF True other rest "1.prems"(2)] True other show ?thesis
        by (subst cleanNamespace_loop.simps) simp
    qed
  qed
qed

lemma cleanNamespace_clean: "singleSlashes True ns \<Longrightarrow> cleanNamespace ns = ns"
  by (simp add: cleanNamespace_def cleanNamespace_loop_clean)

lemma singleSlashes_not_slash: "singleSlashes True ns \<Longrightarrow> ns \<noteq> ''/''"
  by auto

text \<open>
  Claim C3, amended. For a non-empty name, \<open>getActions\<close> returns the matches least
  specific first, on the namespace as \<open>cleanNamespace\<close> leaves it: the matches among
  the cached root actions first, then those of each prefix of the cleaned namespace
  that ends before a slash, from the shortest to the longest, those of the cleaned
  namespace itself last; a cleaned namespace that is just a slash contributes nothing
  beyond the root actions. A namespace without a slash at its start and without two
  slashes in a row is left as it is by \<open>cleanNamespace\<close>, so that for it the prefixes
  are its own ancestors and itself: for \<open>show\<close> and \<open>a/b\<close>, the action of the root
  before that of \<open>a\<close> before that of \<open>a/b\<close>. Within one container the matches
  stand in reverse order.
\<close>

theorem getActions_root_first:
  assumes "nm \<noteq> []"
  shows "getActions d nm nameSpace =
     rev (filter (\<lambda>a. action_name a = nm) (rootActions d)) @
     (if cleanNamespace nameSpace = ''/'' then []
      else concat (map (\<lambda>k. rev (filter (\<lambda>a. action_name a = nm) (containerValue (containerHash d) k)))
             (namespacePrefixes (cleanNamespace nameSpace)))) \<and>
     (singleSlashes True nameSpace \<longrightarrow>
      cleanNamespace nameSpace = nameSpace \<and>
      getActions d nm nameSpace =
        rev (filter (\<lambda>a. action_name a = nm) (rootActions d)) @
        concat (map (\<lambda>k. rev (filter (\<lambda>a. action_name a = nm) (containerValue (containerHash d) k)))
          (namespacePrefixes nameSpace)))"
proof -
  have general: "getActions d nm nameSpace =
     rev (filter (\<lambda>a. action_name a = nm) (rootActions d)) @
     (if cleanNamespace nameSpace = ''/'' then []
      else concat (map (\<lambda>k. rev (filter (\<lambda>a. action_name a = nm) (containerValue (containerHash d) k)))
             (namespacePrefixes (cleanNamespace nameSpace))))"
  proof (cases "cleanNamespace nameSpace = ''/''")
    case True
    with assms show ?thesis
      by (simp add: getActions_def getActions_loop_eq getContainers_def)
  next
    case False
    with assms show ?thesis
      by (simp add: getActions_def getActions_loop_eq getContainers_prefixes
          filter_concat rev_concat rev_map comp_def)
  qed
  moreover have "cleanNamespace nameSpace = nameSpace \<and> nameSpace \<noteq> ''/''"
    if "singleSlashes True nameSpace"
    using that cleanNamespace_clean [OF that] singleSlashes_not_slash [OF that] by simp
  ultimately show ?thesis by auto
qed

theorem getActions_root_first_witness:
  "''show'' \<noteq> [] \<and> singleSlashes True ''a/b'' \<and>
   getActions showDispatcher ''show'' ''a/b'' =
     [mkAction [] ''show''] @ [mkAction ''a'' ''show''] @ [mkAction ''a/b'' ''show''] \<and>
   cleanNamespace ''/a/b'' = ''ab'' \<and>
   getActions showDispatcher ''show'' ''/a/b'' = [mkAction [] ''show'']"
proof -
  have p: "namespacePrefixes ''a/b'' = [''a'', ''a/b'']" "namespacePrefixes ''ab'' = [''ab'']"
    by code_simp+
  have n: "''show'' \<noteq> []" by simp
  have c: "singleSlashes True ''a/b''" by simp
  have k: "cleanNamespace ''/a/b'' = ''ab''" by code_simp
  from getActions_root_first [OF n, of showDispatcher "''a/b''"] c
  have 1: "getActions showDispatcher ''show'' ''a/b'' =
     [mkAction [] ''show''] @ [mkAction ''a'' ''show''] @ [mkAction ''a/b'' ''show'']"
    by (simp add: p showDispatcher_def mkDispatcher_def mkAction_def containerValue_def)
  from getActions_root_first [OF n, of showDispatcher "''/a/b''"]
  have 2: "getActions showDispatcher ''show'' ''/a/b'' = [mkAction [] ''show'']"
    by (simp add: k p showDispatcher_def mkDispatcher_def mkAction_def containerValue_def)
  from n c 1 2 k show ?thesis by blast
qed

subsection \<open>Resolving a relative operation name\<close>

lemma lastIndexOf_scan_hit:
  "k \<le> n \<Longrightarrow> s ! k = c \<Longrightarrow> (\<And>i. k < i \<Longrightarrow> i \<le> n \<Longrightarrow> s ! i \<noteq> c) \<Longrightarrow>
   lastIndexOf_scan c s n = int k"
proof (induction n)
  case 0
  then show ?case by simp
next
  case (Suc n)
  show ?case
  proof (cases "k = Suc n")
    case True
    with Suc.prems show ?thesis by simp
  next
    case False
    with Suc.prems have "k \<le> n" by simp
    moreover have "s ! Suc n \<noteq> c" using Suc.prems(3) [of "Suc n"] False Suc.prems(1) by simp
    ultimately show ?thesis using Suc by simp
  qed
qed

lemma lastIndexOf_scan_miss:
  "(\<And>i. i \<le> n \<Longrightarrow> s ! i \<noteq> c) \<Longrightarrow> lastIndexOf_scan c s n = -1"
  by (induction n) auto












subsection \<open>URI generation\<close>

lemma uriForAction_loop_eq:
  "uriForAction_loop ts a captures =
     map_option (\<lambda>uri. if uri = [] then ''/'' else uri)
       (firstNonNull (map (\<lambda>t. dt_uriForAction t (dt_state t) a captures) ts))"
  by (induction ts) (auto simp: firstNonNull_def split: option.splits)

text \<open>
  Claim C7. \<open>uriForAction\<close> asks every dispatch type in order and returns the first
  result that is not null, an empty one replaced by the root path \<open>/\<close>; when every
  dispatch type answers null, so does \<open>uriForAction\<close>.
\<close>

theorem uriForAction_first_non_null:
  "uriForAction d a captures =
     map_option (\<lambda>uri. if uri = [] then ''/'' else uri)
       (firstNonNull (map (\<lambda>t. dt_uriForAction t (dt_state t) a captures) (dispatchers d))) \<and>
   ((\<forall>t \<in> set (dispatchers d). dt_uriForAction t (dt_state t) a captures = None) \<longrightarrow>
      uriForAction d a captures = None)"
proof -
  have "firstNonNull (map (\<lambda>t. dt_uriForAction t (dt_state t) a captures) (dispatchers d)) = None"
    if "\<forall>t \<in> set (dispatchers d). dt_uriForAction t (dt_state t) a captures = None"
  proof -
    have "filter (\<lambda>r. r \<noteq> None) (map (\<lambda>t. dt_uriForAction t (dt_state t) a captures) (dispatchers d)) = []"
      using that by (simp add: filter_empty_conv)
    then show ?thesis by (simp add: firstNonNull_def)
  qed
  then show ?thesis
    by (simp add: uriForAction_def uriForAction_loop_eq)
qed

theorem uriForAction_first_non_null_witness:
  "uriForAction uriDispatcher (mkAction [] ''index'') [] = Some ''/'' \<and>
   uriForAction uriDispatcher (mkAction [] ''x'') [] = Some ''/x'' \<and>
   uriForAction uriDispatcher (mkAction [] ''missing'') [] = None"
proof -
  have f: "firstNonNull (map (\<lambda>t. dt_uriForAction t (dt_state t) (mkAction [] ''index'') [])
      (dispatchers uriDispatcher)) = Some []"
    by code_simp
  have g: "firstNonNull (map (\<lambda>t. dt_uriForAction t (dt_state t) (mkAction [] ''x'') [])
      (dispatchers uriDispatcher)) = Some ''/x''"
    by code_simp
  have n: "\<forall>t \<in> set (dispatchers uriDispatcher).
      dt_uriForAction t (dt_state t) (mkAction [] ''missing'') [] = None"
    by code_simp
  from uriForAction_first_non_null [of uriDispatcher "mkAction [] ''index''" "[]"] f
  have 1: "uriForAction uriDispatcher (mkAction [] ''index'') [] = Some ''/''" by simp
  from uriForAction_first_non_null [of uriDispatcher "mkAction [] ''x''" "[]"] g
  have 2: "uriForAction uriDispatcher (mkAction [] ''x'') [] = Some ''/x''" by simp
  from uriForAction_first_non_null [of uriDispatcher "mkAction [] ''missing''" "[]"] n
  have 3: "uriForAction uriDispatcher (mkAction [] ''missing'') [] = None" by blast
  from 1 2 3 show ?thesis by blast
qed

subsection \<open>Dispatching without an action\<close>

text \<open>
  Claim C6. On a context without an action, \<open>dispatch\<close> returns \<open>false\<close>, never an
  error of the process, and adds exactly one message to the context: that no default
  action is defined when the request path is empty, and otherwise that the resource,
  named by its path, is unknown.
\<close>

theorem dispatch_without_action:
  assumes "ctx_action ctx = None"
  shows "dispatch actionDispatch d ctx =
     Inr (False, ctx\<lparr>ctx_error := ctx_error ctx @
       [if req_path ctx = [] then ''No default action defined''
        else ''Unknown resource '' @ [CHR 0x22] @ req_path ctx @ [CHR 0x22] @ ''.'']\<rparr>)"
  using assms by (simp add: dispatch_def Context_error_def Let_def)

theorem dispatch_without_action_witness:
  "ctx_action (mkContext [] []) = None \<and>
   dispatch (\<lambda>a c. (True, c)) (mkDispatcher Map.empty Map.empty []) (mkContext [] []) =
     Inr (False, (mkContext [] [])\<lparr>ctx_error := [''No default action defined'']\<rparr>) \<and>
   ctx_action (mkContext ''nonexistent'' []) = None \<and>
   dispatch (\<lambda>a c. (True, c)) (mkDispatcher Map.empty Map.empty []) (mkContext ''nonexistent'' []) =
     Inr (False, (mkContext ''nonexistent'' [])\<lparr>ctx_error :=
       [''Unknown resource '' @ [CHR 0x22] @ ''nonexistent'' @ [CHR 0x22] @ ''.'']\<rparr>)"
proof -
  have a: "ctx_action (mkContext [] []) = None" and b: "ctx_action (mkContext ''nonexistent'' []) = None"
    by (simp_all add: mkContext_def)
  show ?thesis
    using dispatch_without_action [OF a, of "\<lambda>a c. (True, c)" "mkDispatcher Map.empty Map.empty []"]
      dispatch_without_action [OF b, of "\<lambda>a c. (True, c)" "mkDispatcher Map.empty Map.empty []"]
    by (simp add: mkContext_def)
qed

subsection \<open>Setup: keys that are registered already\<close>

lemma setupAction_present:
  assumes "actionHash d (reverse a) = Some prev"
  shows "setupAction d instanceUsed log a =
     (if action_name a \<in> set lifecycleNames then
        (if showInternalActions d
         then Inl (AlreadyRegistered (action_name a) (action_controller a) (action_controller prev))
         else Inr (d, instanceUsed, log))
      else Inr (d, instanceUsed, log @ [NotRegistered (action_name a) (action_controller a)]))"
  using assms by (simp add: setupAction_def)

lemma setupAction_keeps:
  assumes "setupAction d u l a = Inr (d', u', l')"
  shows "showInternalActions d' = showInternalActions d"
    and "actionHash d k \<noteq> None \<Longrightarrow> actionHash d' k \<noteq> None"
  using assms
  by (auto simp: setupAction_def Let_def split: if_splits prod.splits option.splits)

lemma setupActions_actions_keeps:
  assumes "setupActions_actions d u l as = Inr (d', u', l')"
  shows "showInternalActions d' = showInternalActions d \<and>
     (actionHash d k \<noteq> None \<longrightarrow> actionHash d' k \<noteq> None)"
  using assms
proof (induction as arbitrary: d u l)
  case Nil
  then show ?case by simp
next
  case (Cons a as)
  from Cons.prems obtain d1 u1 l1 where s: "setupAction d u l a = Inr (d1, u1, l1)"
    and r: "setupActions_actions d1 u1 l1 as = Inr (d', u', l')"
    by (auto split: sum.splits)
  from Cons.IH [OF r] setupAction_keeps [OF s] show ?case by auto
qed

lemma setupActions_controllers_keeps:
  assumes "setupActions_controllers d l cs = Inr (d', l')"
  shows "showInternalActions d' = showInternalActions d \<and>
     (actionHash d k \<noteq> None \<longrightarrow> actionHash d' k \<noteq> None)"
  using assms
proof (induction cs arbitrary: d l)
  case Nil
  then show ?case by simp
next
  case (Cons c cs)
  from Cons.prems obtain d1 u1 l1 where s: "setupActions_actions d False l (actions c) = Inr (d1, u1, l1)"
    and r: "setupActions_controllers
        (if u1 then d1\<lparr>constrollerHash := (constrollerHash d1)(objectName c \<mapsto> controller_addr c)\<rparr> else d1)
        l1 cs = Inr (d', l')"
    by (auto split: sum.splits)
  from Cons.IH [OF r] setupActions_actions_keeps [OF s, of k] show ?case
    by (auto split: if_splits)
qed

lemma setupActions_actions_fatal:
  assumes "a \<in> set as" "actionHash d (reverse a) \<noteq> None"
    "action_name a \<in> set lifecycleNames" "showInternalActions d"
  shows "isl (setupActions_actions d u l as)"
  using assms
proof (induction as arbitrary: d u l)
  case Nil
  then show ?case by simp
next
  case (Cons b as)
  show ?case
  proof (cases "setupAction d u l b")
    case (Inl e)
    then show ?thesis by simp
  next
    case (Inr r)
    obtain d1 u1 l1 where r: "r = (d1, u1, l1)" by (cases r)
    have "a \<noteq> b"
    proof
      assume "a = b"
      with Cons.prems obtain prev where "actionHash d (reverse b) = Some prev" by auto
      from setupAction_present [OF this, of u l] Cons.prems \<open>a = b\<close> Inr show False by simp
    qed
    with Cons.prems have "a \<in> set as" by simp
    moreover from setupAction_keeps [OF Inr [unfolded r]] Cons.prems
    have "actionHash d1 (reverse a) \<noteq> None" "showInternalActions d1" by auto
    ultimately have "isl (setupActions_actions d1 u1 l1 as)"
      using Cons.prems(3) by (intro Cons.IH)
    with Inr r show ?thesis by simp
  qed
qed

lemma setupActions_controllers_fatal:
  assumes "c \<in> set cs" "a \<in> set (actions c)" "actionHash d (reverse a) \<noteq> None"
    "action_name a \<in> set lifecycleNames" "showInternalActions d"
  shows "isl (setupActions_controllers d l cs)"
  using assms
proof (induction cs arbitrary: d l)
  case Nil
  then show ?case by simp
next
  case (Cons b cs)
  show ?case
  proof (cases "setupActions_actions d False l (actions b)")
    case (Inl e)
    then show ?thesis by simp
  next
    case (Inr r)
    obtain d1 u1 l1 where r: "r = (d1, u1, l1)" by (cases r)
    let ?d = "if u1 then d1\<lparr>constrollerHash := (constrollerHash d1)(objectName b \<mapsto> controller_addr b)\<rparr> else d1"
    have "c \<noteq> b"
    proof
      assume "c = b"
      with Cons.prems have "isl (setupActions_actions d False l (actions b))"
        by (intro setupActions_actions_fatal [of a]) auto
      with Inr show False by simp
    qed
    with Cons.prems have "c \<in> set cs" by simp
    moreover from setupActions_actions_keeps [OF Inr [unfolded r], of "reverse a"] Cons.prems
    have "actionHash ?d (reverse a) \<noteq> None" "showInternalActions ?d" by auto
    ultimately have "isl (setupActions_controllers ?d l1 cs)"
      using Cons.prems(2,4) by (intro Cons.IH)
    with Inr r show ?thesis by simp
  qed
qed

lemma setupAction_quiet:
  "\<not> showInternalActions d \<Longrightarrow> \<not> isl (setupAction d u l a)"
  by (auto simp: setupAction_def Let_def split: prod.splits)

lemma setupActions_actions_quiet:
  "\<not> showInternalActions d \<Longrightarrow> \<not> isl (setupActions_actions d u l as)"
proof (induction as arbitrary: d u l)
  case Nil
  then show ?case by simp
next
  case (Cons a as)
  show ?case
  proof (cases "setupAction d u l a")
    case (Inl e)
    with setupAction_quiet [OF Cons.prems, of u l a] show ?thesis by simp
  next
    case (Inr r)
    obtain d1 u1 l1 where r: "r = (d1, u1, l1)" by (cases r)
    from setupAction_keeps(1) [OF Inr [unfolded r]] Cons.prems have "\<not> showInternalActions d1" by simp
    from Cons.IH [OF this] Inr r show ?thesis by simp
  qed
qed

lemma setupActions_controllers_quiet:
  "\<not> showInternalActions d \<Longrightarrow> \<not> isl (setupActions_controllers d l cs)"
proof (induction cs arbitrary: d l)
  case Nil
  then show ?case by simp
next
  case (Cons c cs)
  show ?case
  proof (cases "setupActions_actions d False l (actions c)")
    case (Inl e)
    with setupActions_actions_quiet [OF Cons.prems, of False l "actions c"] show ?thesis by simp
  next
    case (Inr r)
    obtain d1 u1 l1 where r: "r = (d1, u1, l1)" by (cases r)
    let ?d = "if u1 then d1\<lparr>constrollerHash := (constrollerHash d1)(objectName c \<mapsto> controller_addr c)\<rparr> else d1"
    from setupActions_actions_keeps [OF Inr [unfolded r], of undefined] Cons.prems
    have "\<not> showInternalActions ?d" by simp
    from Cons.IH [OF this] Inr r show ?thesis by simp
  qed
qed

lemma isl_setupActions:
  "isl (setupActions nf d cs) = isl (setupActions_controllers d [] cs)"
  by (auto simp: setupActions_def Let_def split: sum.splits)


lemma setupAction_lifecycle_registered:
  assumes "setupAction d u l a = Inr (d', u', l')" "action_name a \<in> set lifecycleNames"
    "showInternalActions d"
  shows "actionHash d' (reverse a) \<noteq> None"
  using assms
  by (auto simp: setupAction_def Let_def reverse_def split: if_splits prod.splits option.splits)

lemma setupActions_actions_lifecycle_registered:
  assumes "setupActions_actions d u l as = Inr (d', u', l')" "a \<in> set as"
    "action_name a \<in> set lifecycleNames" "showInternalActions d"
  shows "actionHash d' (reverse a) \<noteq> None"
  using assms
proof (induction as arbitrary: d u l)
  case Nil
  then show ?case by simp
next
  case (Cons b as)
  from Cons.prems(1) obtain d1 u1 l1 where s: "setupAction d u l b = Inr (d1, u1, l1)"
    and r: "setupActions_actions d1 u1 l1 as = Inr (d', u', l')"
    by (auto split: sum.splits)
  have diag: "showInternalActions d1" using setupAction_keeps(1) [OF s] Cons.prems(4) by simp
  show ?case
  proof (cases "a = b")
    case True
    with setupAction_lifecycle_registered [OF s] Cons.prems
    have "actionHash d1 (reverse a) \<noteq> None" by simp
    with setupActions_actions_keeps [OF r, of "reverse a"] show ?thesis by simp
  next
    case False
    with Cons.prems have "a \<in> set as" by simp
    from Cons.IH [OF r this Cons.prems(3) diag] show ?thesis .
  qed
qed

lemma setupActions_controllers_append:
  "setupActions_controllers d l (pre @ rest) =
     (case setupActions_controllers d l pre of
        Inl e \<Rightarrow> Inl e
      | Inr (d', l') \<Rightarrow> setupActions_controllers d' l' rest)"
  by (induction pre arbitrary: d l) (auto split: sum.splits)

lemma setupActions_controllers_twice:
  assumes "c2 \<in> set rest" "a1 \<in> set (actions c1)" "a2 \<in> set (actions c2)"
    "reverse a2 = reverse a1" "action_name a1 \<in> set lifecycleNames"
    "action_name a2 \<in> set lifecycleNames" "showInternalActions d"
  shows "isl (setupActions_controllers d l (pre @ c1 # rest))"
proof (cases "setupActions_controllers d l pre")
  case (Inl e)
  then show ?thesis by (simp add: setupActions_controllers_append)
next
  case (Inr r)
  obtain d0 l0 where r: "r = (d0, l0)" by (cases r)
  have diag0: "showInternalActions d0"
    using setupActions_controllers_keeps [OF Inr [unfolded r], of undefined] assms(7) by simp
  show ?thesis
  proof (cases "setupActions_actions d0 False l0 (actions c1)")
    case (Inl e)
    with Inr r show ?thesis by (simp add: setupActions_controllers_append)
  next
    case inner: (Inr q)
    obtain d1 u1 l1 where q: "q = (d1, u1, l1)" by (cases q)
    let ?d = "if u1 then d1\<lparr>constrollerHash := (constrollerHash d1)(objectName c1 \<mapsto> controller_addr c1)\<rparr> else d1"
    have "actionHash d1 (reverse a1) \<noteq> None"
      using setupActions_actions_lifecycle_registered [OF inner [unfolded q] assms(2,5) diag0] .
    moreover have "showInternalActions d1"
      using setupActions_actions_keeps [OF inner [unfolded q], of undefined] diag0 by simp
    ultimately have "actionHash ?d (reverse a2) \<noteq> None" "showInternalActions ?d"
      using assms(4) by auto
    then have "isl (setupActions_controllers ?d l1 rest)"
      using assms(1,3,6) by (intro setupActions_controllers_fatal [of c2 rest a2])
    with Inr r inner q show ?thesis by (simp add: setupActions_controllers_append)
  qed
qed

text \<open>
  Claim C2, as stated, sends every action whose key is registered already to the fatal
  path when the diagnostics are enabled. Two controllers that both declare \<open>index\<close>
  in the namespace \<open>a\<close> go through setup without an abort: the second action only
  leaves the debug message that no dispatcher registered it.
\<close>

theorem setupActions_duplicate_counterexample:
  "showInternalActions diagDispatcher \<and>
   \<not> isl (setupActions (\<lambda>d c. c) diagDispatcher
      [mkController 1 ''First'' [privateAction ''a'' ''index'' ''First''],
       mkController 2 ''Second'' [privateAction ''a'' ''index'' ''Second'']]) \<and>
   map_sum id (\<lambda>r. snd (snd r)) (setupActions (\<lambda>d c. c) diagDispatcher
      [mkController 1 ''First'' [privateAction ''a'' ''index'' ''First''],
       mkController 2 ''Second'' [privateAction ''a'' ''index'' ''Second'']]) =
     Inr [NotRegistered ''index'' ''Second'']"
  by code_simp

text \<open>
  Claim C2, amended. An action whose reverse key is in the registry already is never
  inserted. It takes the fatal path (critical message, \<open>exit(1)\<close>) exactly when the
  diagnostics are enabled and its name is one of the five lifecycle names
  \<open>_DISPATCH\<close>, \<open>_BEGIN\<close>, \<open>_AUTO\<close>, \<open>_ACTION\<close>, \<open>_END\<close>; under another name
  it leaves a debug message, and under a lifecycle name with the diagnostics disabled
  it is passed over in silence. With the diagnostics enabled, setup ends in an error
  as soon as the controllers hold such an action for a key of the registry, or two
  actions of the same namespace and the same lifecycle name in two controllers; the
  abort ends setup, so the fatal path is taken once. With the diagnostics disabled
  setup never ends in an error.
\<close>

theorem setupActions_duplicate:
  assumes "actionHash d (reverse a) = Some prev"
  shows "setupAction d instanceUsed log a =
     (if action_name a \<in> set lifecycleNames then
        (if showInternalActions d
         then Inl (AlreadyRegistered (action_name a) (action_controller a) (action_controller prev))
         else Inr (d, instanceUsed, log))
      else Inr (d, instanceUsed, log @ [NotRegistered (action_name a) (action_controller a)])) \<and>
     (c \<in> set cs \<and> a \<in> set (actions c) \<and> action_name a \<in> set lifecycleNames \<and>
      showInternalActions d \<longrightarrow> isl (setupActions setupFinished d cs)) \<and>
     (c2 \<in> set rest \<and> a1 \<in> set (actions c1) \<and> a2 \<in> set (actions c2) \<and>
      action_ns a2 = action_ns a1 \<and> action_name a2 = action_name a1 \<and>
      action_name a1 \<in> set lifecycleNames \<and> showInternalActions d0 \<longrightarrow>
      isl (setupActions setupFinished d0 (pre @ c1 # rest))) \<and>
     (\<not> showInternalActions d0 \<longrightarrow> \<not> isl (setupActions setupFinished d0 cs))"
proof -
  have "actionHash d (reverse a) \<noteq> None" using assms by simp
  then show ?thesis
    using setupAction_present [OF assms] setupActions_controllers_fatal [of c cs a d "[]"]
      setupActions_controllers_quiet [of d0 "[]" cs]
      setupActions_controllers_twice [of c2 rest a1 c1 a2 d0 "[]" pre]
    by (auto simp: isl_setupActions reverse_def)
qed

theorem setupActions_duplicate_witness:
  "actionHash (diagDispatcher\<lparr>actionHash := [''a/_BEGIN'' \<mapsto> privateAction ''a'' ''_BEGIN'' ''First'']\<rparr>)
     (reverse (privateAction ''a'' ''_BEGIN'' ''Second'')) = Some (privateAction ''a'' ''_BEGIN'' ''First'') \<and>
   setupAction (diagDispatcher\<lparr>actionHash := [''a/_BEGIN'' \<mapsto> privateAction ''a'' ''_BEGIN'' ''First'']\<rparr>)
     False [] (privateAction ''a'' ''_BEGIN'' ''Second'') =
     Inl (AlreadyRegistered ''_BEGIN'' ''Second'' ''First'') \<and>
   isl (setupActions (\<lambda>d c. c) diagDispatcher
      ([] @ mkController 1 ''First'' [privateAction ''a'' ''_BEGIN'' ''First''] #
        [mkController 2 ''Second'' [privateAction ''a'' ''_BEGIN'' ''Second'']])) \<and>
   \<not> isl (setupActions (\<lambda>d c. c) quietDispatcher
      [mkController 1 ''First'' [privateAction ''a'' ''_BEGIN'' ''First''],
       mkController 2 ''Second'' [privateAction ''a'' ''_BEGIN'' ''Second'']])"
proof -
  let ?d = "diagDispatcher\<lparr>actionHash := [''a/_BEGIN'' \<mapsto> privateAction ''a'' ''_BEGIN'' ''First'']\<rparr>"
  let ?c1 = "mkController 1 ''First'' [privateAction ''a'' ''_BEGIN'' ''First'']"
  let ?c2 = "mkController 2 ''Second'' [privateAction ''a'' ''_BEGIN'' ''Second'']"
  have h: "actionHash ?d (reverse (privateAction ''a'' ''_BEGIN'' ''Second'')) =
      Some (privateAction ''a'' ''_BEGIN'' ''First'')"
    by (simp add: reverse_def privateAction_def)
  note t = setupActions_duplicate [OF h, of False "[]" ?c2 "[?c2]" "\<lambda>d c. c" ?c2 "[?c2]"
      "privateAction ''a'' ''_BEGIN'' ''First''" ?c1 "privateAction ''a'' ''_BEGIN'' ''Second''"
      diagDispatcher "[]"]
  note q = setupActions_duplicate [OF h, of False "[]" ?c2 "[?c1, ?c2]" "\<lambda>d c. c" ?c2 "[?c2]"
      "privateAction ''a'' ''_BEGIN'' ''First''" ?c1 "privateAction ''a'' ''_BEGIN'' ''Second''"
      quietDispatcher "[]"]
  have l: "''_BEGIN'' \<in> set lifecycleNames" by (simp add: lifecycleNames_def)
  have dg: "showInternalActions ?d" "showInternalActions diagDispatcher"
    "\<not> showInternalActions quietDispatcher"
    by (simp_all add: diagDispatcher_def quietDispatcher_def mkTypedDispatcher_def)
  from t l dg have 1: "setupAction ?d False [] (privateAction ''a'' ''_BEGIN'' ''Second'') =
      Inl (AlreadyRegistered ''_BEGIN'' ''Second'' ''First'')"
    by (simp add: privateAction_def)
  from t l dg have 2: "isl (setupActions (\<lambda>d c. c) diagDispatcher ([] @ ?c1 # [?c2]))"
    by (simp add: privateAction_def mkController_def)
  from q dg have 3: "\<not> isl (setupActions (\<lambda>d c. c) quietDispatcher [?c1, ?c2])"
    by blast
  from h 1 2 3 show ?thesis by blast
qed

subsection \<open>Setup: a second call\<close>






lemma setupActions_result:
  assumes "setupActions setupFinished d cs = Inr (d', cs', log)"
  shows "\<exists>d1. setupActions_controllers d [] cs = Inr (d1, log) \<and>
     cs' = map (setupFinished (cacheRootActions d1)) cs \<and>
     d' = (cacheRootActions d1)\<lparr>dispatchers := unregisterUnused (dispatchers d1)\<rparr>"
  using assms
  by (auto simp: setupActions_def Let_def cacheRootActions_def split: sum.splits)

lemma firstSetup_ok: "\<not> isl firstSetup"
  by code_simp


lemma declinesStably_state [simp]: "declinesStably (t\<lparr>dt_state := s\<rparr>) = declinesStably t"
  by (simp add: declinesStably_def)




lemma settled_controller [simp]:
  "settled (d\<lparr>constrollerHash := h\<rparr>) a = settled d a"
  by (simp add: settled_def)







subsection \<open>The cached root actions\<close>

lemma namespacePrefixes_nonempty: "k \<in> set (namespacePrefixes ns) \<Longrightarrow> k \<noteq> []"
  by (auto simp: namespacePrefixes_def)

lemma containerValue_root_update: "k \<noteq> [] \<Longrightarrow> containerValue (h([] \<mapsto> xs)) k = containerValue h k"
  by (simp add: containerValue_def)

lemma getContainers_root_update:
  "getContainers (d\<lparr>containerHash := (containerHash d)([] \<mapsto> xs)\<rparr>) ns = getContainers d ns"
proof (cases "ns = ''/''")
  case True
  then show ?thesis by (simp add: getContainers_def)
next
  case False
  have m: "map (containerValue ((containerHash d)([] \<mapsto> xs))) (rev (namespacePrefixes ns)) =
      map (containerValue (containerHash d)) (rev (namespacePrefixes ns))"
    by (rule map_cong) (auto simp: containerValue_root_update dest: namespacePrefixes_nonempty)
  show ?thesis
    using False by (simp add: getContainers_prefixes m)
qed

text \<open>
  Claim C8. When \<open>setupActions\<close> succeeds, the controllers are notified with a
  dispatcher whose cached root actions are the container of the root namespace as it
  is after registration, and the dispatcher that results has the same cache. The cache
  is a copy: replacing the container of the root namespace afterwards changes neither
  the cached list nor the result of the namespace walk, for any namespace.
\<close>

theorem rootActions_snapshot:
  assumes "setupActions setupFinished d cs = Inr (d', cs', log)"
  shows "(\<exists>d2. cs' = map (setupFinished d2) cs \<and>
            rootActions d2 = containerValue (containerHash d2) [] \<and>
            rootActions d' = rootActions d2 \<and> containerHash d' = containerHash d2) \<and>
     (\<forall>xs ns. rootActions (d'\<lparr>containerHash := (containerHash d')([] \<mapsto> xs)\<rparr>) = rootActions d' \<and>
        getContainers (d'\<lparr>containerHash := (containerHash d')([] \<mapsto> xs)\<rparr>) ns = getContainers d' ns)"
proof -
  from setupActions_result [OF assms] obtain d1 where
    "cs' = map (setupFinished (cacheRootActions d1)) cs"
    "d' = (cacheRootActions d1)\<lparr>dispatchers := unregisterUnused (dispatchers d1)\<rparr>"
    by auto
  then have "cs' = map (setupFinished (cacheRootActions d1)) cs \<and>
      rootActions (cacheRootActions d1) = containerValue (containerHash (cacheRootActions d1)) [] \<and>
      rootActions d' = rootActions (cacheRootActions d1) \<and>
      containerHash d' = containerHash (cacheRootActions d1)"
    by (simp add: cacheRootActions_def)
  then show ?thesis
    using getContainers_root_update [of d'] by (intro conjI exI [of _ "cacheRootActions d1"]) auto
qed

theorem rootActions_snapshot_witness:
  "\<not> isl firstSetup \<and>
   getContainers ((fst (projr firstSetup))\<lparr>containerHash :=
       (containerHash (fst (projr firstSetup)))([] \<mapsto>
          containerValue (containerHash (fst (projr firstSetup))) [] @ [mkAction [] ''late''])\<rparr>) [] =
     [(mkAction [] ''index'')\<lparr>action_attributes := [''Path'']\<rparr>, privateAction [] ''_BEGIN'' ''Root'']"
proof -
  have f: "setupActions (\<lambda>d c. c) quietDispatcher exampleControllers =
      Inr (fst (projr firstSetup), fst (snd (projr firstSetup)), snd (snd (projr firstSetup)))"
    using firstSetup_ok by (cases firstSetup) (simp_all add: firstSetup_def)
  have g: "getContainers (fst (projr firstSetup)) [] =
      [(mkAction [] ''index'')\<lparr>action_attributes := [''Path'']\<rparr>, privateAction [] ''_BEGIN'' ''Root'']"
    by code_simp
  from rootActions_snapshot [OF f] g firstSetup_ok show ?thesis by simp
qed

subsection \<open>Path resolution\<close>

lemma join_q_snoc: "segs \<noteq> [] \<Longrightarrow> join_q (segs @ [s]) = join_q segs @ ''/'' @ s"
  by (induction segs rule: join_q.induct) auto

lemma split_q_nonempty: "split_q c xs \<noteq> []"
  by (induction xs) (auto split: list.splits)

lemma join_q_split_q: "join_q (split_q CHR ''/'' xs) = xs"
proof (induction xs)
  case Nil
  then show ?case by simp
next
  case (Cons x xs)
  obtain p ps where s: "split_q CHR ''/'' xs = p # ps"
    using split_q_nonempty [of "CHR ''/''" xs] by (cases "split_q CHR ''/'' xs") auto
  with Cons show ?case by (cases ps) auto
qed

lemma split_q_no_separator: "s \<in> set (split_q c xs) \<Longrightarrow> c \<notin> set s"
  by (induction xs arbitrary: s) (auto split: if_splits list.splits)

lemma lastIndexOf_before_segment:
  assumes "c \<notin> set s"
  shows "lastIndexOf (J @ c # s @ tail) c (int (length (J @ c # s)) - 1) = int (length J)"
proof -
  let ?p = "J @ c # s @ tail"
  have "lastIndexOf_scan c ?p (length J + length s) = int (length J)"
  proof (rule lastIndexOf_scan_hit)
    fix i assume i: "length J < i" "i \<le> length J + length s"
    then have "?p ! i = s ! (i - length J - 1)" "i - length J - 1 < length s"
      by (auto simp: nth_append nth_Cons')
    with assms show "?p ! i \<noteq> c" by (metis nth_mem)
  qed simp_all
  then show ?thesis
    by (simp add: lastIndexOf_def Let_def nat_add_distrib)
qed

lemma lastIndexOf_first_segment:
  assumes "c \<notin> set s" "s \<noteq> []"
  shows "lastIndexOf (s @ tail) c (int (length s) - 1) = -1"
proof -
  have "lastIndexOf_scan c (s @ tail) (length s - 1) = -1"
  proof (rule lastIndexOf_scan_miss)
    fix i assume "i \<le> length s - 1"
    with assms(2) have "i < length s" by (cases s) auto
    then have "(s @ tail) ! i = s ! i" "s ! i \<in> set s" by (auto simp: nth_append)
    with assms(1) show "(s @ tail) ! i \<noteq> c" by metis
  qed
  moreover have "nat (int (length s) - 1) = length s - 1" by simp
  ultimately show ?thesis
    using assms(2) by (simp add: lastIndexOf_def Let_def)
qed

lemma mid_prefix: "mid (J @ tail) 0 (int (length J)) = J"
  by (simp add: mid_0_take)

lemma prepareAction_loop_root:
  "prepareAction_loop ts dec path pathParts args 0 ctx =
     Inr (snd (prepareAction_types ts ctx [] args))"
  by (subst prepareAction_loop.simps) (auto simp: mid_def split: prod.splits bool.splits)

lemma prepareAction_loop_shrink:
  assumes "\<forall>s \<in> set segs. CHR ''/'' \<notin> set s"
  shows "prepareAction_loop ts dec (join_q segs @ tail) ([] # segs) args
           (int (length (join_q segs))) ctx =
         Inr (tryCandidates ts ctx (shrink dec segs args))"
  using assms
proof (induction segs arbitrary: tail args ctx rule: rev_induct)
  case Nil
  show ?case
    by (simp add: prepareAction_loop_root shrink.simps [of dec "[]"] split: prod.splits bool.splits)
next
  case (snoc s segs)
  let ?J = "join_q (segs @ [s])"
  let ?path = "?J @ tail"
  show ?case
  proof (cases "?J = []")
    case True
    then show ?thesis
      by (simp add: prepareAction_loop_root shrink.simps [of dec "segs @ [s]"]
          split: prod.splits bool.splits)
  next
    case False
    have noslash: "CHR ''/'' \<notin> set s" and rest: "\<forall>s \<in> set segs. CHR ''/'' \<notin> set s"
      using snoc.prems by auto
    have pos: "\<not> int (length ?J) \<le> 0" using False by simp
    have sh: "shrink dec (segs @ [s]) args = (?J, args) # shrink dec segs (dec s # args)"
      using False by (subst shrink.simps) simp
    obtain tail' where path': "?path = join_q segs @ tail'"
      and nxt: "(let p = lastIndexOf ?path CHR ''/'' (int (length ?J) - 1)
                 in if p = -1 then 0 else p) = int (length (join_q segs))"
    proof (cases "segs = []")
      case True
      with False have "s \<noteq> []" by simp
      from lastIndexOf_first_segment [OF noslash this, of tail] True
      have "(let p = lastIndexOf ?path CHR ''/'' (int (length ?J) - 1)
                 in if p = -1 then 0 else p) = int (length (join_q segs))"
        by simp
      moreover have "?path = join_q segs @ (s @ tail)" using True by simp
      ultimately show ?thesis using that by blast
    next
      case False
      then have j: "?J = join_q segs @ CHR ''/'' # s" by (simp add: join_q_snoc)
      from lastIndexOf_before_segment [OF noslash, of "join_q segs" tail]
      have "lastIndexOf ?path CHR ''/'' (int (length ?J) - 1) = int (length (join_q segs))"
        by (simp add: j)
      then have "(let p = lastIndexOf ?path CHR ''/'' (int (length ?J) - 1)
                 in if p = -1 then 0 else p) = int (length (join_q segs))"
        by (simp add: Let_def)
      moreover have "?path = join_q segs @ (CHR ''/'' # s @ tail)" by (simp add: j)
      ultimately show ?thesis using that by blast
    qed
    have IH: "prepareAction_loop ts dec ?path ([] # segs) (dec s # args)
        (int (length (join_q segs))) c = Inr (tryCandidates ts c (shrink dec segs (dec s # args)))"
      for c
      unfolding path' by (rule snoc.IH [OF rest])
    show ?thesis
      apply (subst prepareAction_loop.simps)
      apply (simp only: mid_prefix sh tryCandidates.simps)
      apply (cases "prepareAction_types ts ctx ?J args")
      subgoal for b c
        using pos nxt IH [of c]
        by (cases b) (simp_all add: Let_def del: join_q.simps)
      done
  qed
qed


lemma prepareAction_candidates:
  "prepareAction d dec ctx =
     Inr (tryCandidates (dispatchers d) ctx (candidates dec (req_path ctx)))"
proof -
  have "\<forall>s \<in> set (split_q CHR ''/'' (req_path ctx)). CHR ''/'' \<notin> set s"
    by (auto dest: split_q_no_separator)
  from prepareAction_loop_shrink [OF this, of "dispatchers d" dec "[]" "[]" ctx]
  show ?thesis
    by (simp add: prepareAction_def candidates_def join_q_split_q Let_def)
qed

lemma split_q_single: "c \<notin> set p \<Longrightarrow> split_q c p = [p]"
  by (induction p) auto

lemma split_q_append: "c \<notin> set p \<Longrightarrow> split_q c (p @ c # rest) = p # split_q c rest"
  by (induction p) auto

lemma split_q_join_q:
  "segs \<noteq> [] \<Longrightarrow> \<forall>s \<in> set segs. CHR ''/'' \<notin> set s \<Longrightarrow>
   split_q CHR ''/'' (join_q segs) = segs"
  by (induction segs rule: join_q.induct) (auto simp: split_q_single split_q_append)

lemma join_q_two: "ps \<noteq> [] \<Longrightarrow> join_q (ps @ [e]) \<noteq> []"
  by (simp add: join_q_snoc)

lemma tryCandidates_skip:
  assumes "ps \<noteq> []"
    and "\<forall>k. 0 < k \<and> k \<le> length es \<longrightarrow>
      prepareAction_types ts ctx (join_q (ps @ take k es)) (map dec (drop k es) @ args) = (False, ctx)"
  shows "tryCandidates ts ctx (shrink dec (ps @ es) args) =
     tryCandidates ts ctx (shrink dec ps (map dec es @ args))"
  using assms(2)
proof (induction es arbitrary: args rule: rev_induct)
  case Nil
  then show ?case by simp
next
  case (snoc e es)
  have ne: "join_q ((ps @ es) @ [e]) \<noteq> []"
    using assms(1) by (intro join_q_two) simp
  have sh: "shrink dec (ps @ es @ [e]) args =
      (join_q (ps @ es @ [e]), args) # shrink dec (ps @ es) (dec e # args)"
    using ne by (subst shrink.simps) (simp add: butlast_append)
  from snoc.prems [rule_format, of "Suc (length es)"]
  have top: "prepareAction_types ts ctx (join_q (ps @ es @ [e])) args = (False, ctx)"
    by simp
  have "prepareAction_types ts ctx (join_q (ps @ take k es)) (map dec (drop k es) @ dec e # args) =
      (False, ctx)" if "0 < k \<and> k \<le> length es" for k
    using snoc.prems [rule_format, of k] that by simp
  then have "tryCandidates ts ctx (shrink dec (ps @ es) (dec e # args)) =
      tryCandidates ts ctx (shrink dec ps (map dec es @ dec e # args))"
    by (intro snoc.IH) blast
  with sh top show ?case by simp
qed



lemma firstExactMatch_types:
  "firstExactMatch ctx (map (\<lambda>t. (t, p, args)) ts @ rest) =
     (case prepareAction_types ts ctx p args of
        (True, ctx') \<Rightarrow> ctx'
      | (False, ctx') \<Rightarrow> firstExactMatch ctx' rest)"
  by (induction ts arbitrary: ctx) (auto split: prod.splits MatchType.splits)

lemma tryCandidates_offers:
  "tryCandidates ts ctx cs = firstExactMatch ctx (offers ts cs)"
proof (induction cs arbitrary: ctx)
  case Nil
  show ?case by (simp add: offers_def)
next
  case (Cons c cs)
  obtain p args where c: "c = (p, args)" by (cases c)
  have "offers ts (c # cs) = map (\<lambda>t. (t, p, args)) ts @ offers ts cs"
    by (simp add: offers_def c)
  with Cons show ?case
    by (simp add: c firstExactMatch_types split: prod.splits bool.splits)
qed

lemma prepareAction_types_declined:
  "\<forall>t \<in> set ts. dt_match t (dt_state t) ctx p args = (NoMatch, ctx) \<Longrightarrow>
   prepareAction_types ts ctx p args = (False, ctx)"
  by (induction ts) auto

lemma prepareAction_types_first:
  assumes "\<forall>u \<in> set ts1. dt_match u (dt_state u) ctx p args = (NoMatch, ctx)"
    and "dt_match t (dt_state t) ctx p args = (ExactMatch, ctx')"
  shows "prepareAction_types (ts1 @ t # ts2) ctx p args = (True, ctx')"
  using assms by (induction ts1) auto

text \<open>
  Claim C4. \<open>prepareAction\<close> never fails, and its result is that of asking \<open>match\<close>
  down the list of offers: the candidates of the request path, the longest first, each
  with every dispatch type in registration order, up to the first exact match; a
  candidate without a match loses its last segment, which goes, decoded, in front of
  the arguments. Consequently, when the path consists of the segments \<open>ps\<close> followed
  by the segments \<open>es\<close>, no dispatch type matches a prefix longer than \<open>ps\<close>, the
  dispatch types registered before \<open>t\<close> do not match the prefix \<open>ps\<close> and \<open>t\<close>
  matches it exactly with the decoded \<open>es\<close> as arguments, the match of \<open>t\<close> is the
  result: for an action registered at \<open>/a/b\<close> and the request
  \<open>/a/b/extra/segments\<close>, the action with the arguments \<open>extra\<close>, \<open>segments\<close>.
\<close>

theorem prepareAction_longest_prefix_first:
  "prepareAction d dec ctx =
     Inr (firstExactMatch ctx (offers (dispatchers d) (candidates dec (req_path ctx)))) \<and>
   ((\<forall>s \<in> set (ps @ es). CHR ''/'' \<notin> set s) \<and> ps \<noteq> [] \<and> req_path ctx = join_q (ps @ es) \<and>
    (\<forall>k. 0 < k \<and> k \<le> length es \<longrightarrow>
       (\<forall>u \<in> set (dispatchers d).
          dt_match u (dt_state u) ctx (join_q (ps @ take k es)) (map dec (drop k es)) =
            (NoMatch, ctx))) \<and>
    dispatchers d = ts1 @ t # ts2 \<and>
    (\<forall>u \<in> set ts1. dt_match u (dt_state u) ctx (join_q ps) (map dec es) = (NoMatch, ctx)) \<and>
    dt_match t (dt_state t) ctx (join_q ps) (map dec es) = (ExactMatch, ctx') \<longrightarrow>
    prepareAction d dec ctx = Inr ctx')"
proof (intro conjI impI)
  show "prepareAction d dec ctx =
     Inr (firstExactMatch ctx (offers (dispatchers d) (candidates dec (req_path ctx))))"
    by (simp add: prepareAction_candidates tryCandidates_offers)
next
  assume h: "(\<forall>s \<in> set (ps @ es). CHR ''/'' \<notin> set s) \<and> ps \<noteq> [] \<and> req_path ctx = join_q (ps @ es) \<and>
    (\<forall>k. 0 < k \<and> k \<le> length es \<longrightarrow>
       (\<forall>u \<in> set (dispatchers d).
          dt_match u (dt_state u) ctx (join_q (ps @ take k es)) (map dec (drop k es)) =
            (NoMatch, ctx))) \<and>
    dispatchers d = ts1 @ t # ts2 \<and>
    (\<forall>u \<in> set ts1. dt_match u (dt_state u) ctx (join_q ps) (map dec es) = (NoMatch, ctx)) \<and>
    dt_match t (dt_state t) ctx (join_q ps) (map dec es) = (ExactMatch, ctx')"
  then have c: "candidates dec (req_path ctx) = shrink dec (ps @ es) []"
    by (simp add: candidates_def split_q_join_q)
  have longer: "prepareAction_types (dispatchers d) ctx (join_q (ps @ take k es))
      (map dec (drop k es) @ []) = (False, ctx)" if "0 < k \<and> k \<le> length es" for k
    using h that by (intro prepareAction_types_declined) simp
  from h have here: "prepareAction_types (dispatchers d) ctx (join_q ps) (map dec es) = (True, ctx')"
    by (simp add: prepareAction_types_first)
  from h longer have "tryCandidates (dispatchers d) ctx (shrink dec (ps @ es) []) =
      tryCandidates (dispatchers d) ctx (shrink dec ps (map dec es @ []))"
    by (intro tryCandidates_skip) auto
  also have "\<dots> = ctx'"
    using here by (subst shrink.simps) simp
  finally show "prepareAction d dec ctx = Inr ctx'"
    by (simp add: prepareAction_candidates c)
qed

theorem prepareAction_longest_prefix_first_witness:
  "prepareAction orderedDispatcher (\<lambda>s. s) (pathContext ''/a/b/extra/segments'') =
     Inr ((pathContext ''/a/b/extra/segments'')
            \<lparr>ctx_action := Some (mkAction ''a'' ''b''),
             req_args := [''extra'', ''segments''], req_match := ''/a/b''\<rparr>) \<and>
   prepareAction orderedDispatcher (\<lambda>s. s) (pathContext ''/a/b/c/d'') =
     Inr ((pathContext ''/a/b/c/d'')
            \<lparr>ctx_action := Some (mkAction ''other'' ''c''),
             req_args := [''d''], req_match := ''/a/b/c''\<rparr>)"
proof -
  let ?d = orderedDispatcher
  let ?t1 = "literalPathType []"
  let ?t2 = "literalPathType [(''/a/b'', mkAction ''a'' ''b'')]"
  let ?t3 = "literalPathType [(''/a/b'', mkAction ''other'' ''b''),
      (''/a/b/c'', mkAction ''other'' ''c'')]"
  have ds: "dispatchers ?d = [?t1] @ ?t2 # [?t3]" "dispatchers ?d = [?t1, ?t2] @ ?t3 # []"
    by (simp_all add: orderedDispatcher_def mkTypedDispatcher_def)
  \<comment> \<open>of two dispatch types that know the prefix, the one registered first is the result\<close>
  let ?e = "pathContext ''/a/b/extra/segments''"
  let ?e' = "?e\<lparr>ctx_action := Some (mkAction ''a'' ''b''),
             req_args := [''extra'', ''segments''], req_match := ''/a/b''\<rparr>"
  let ?qs = "[[], ''a'', ''b'']"
  let ?fs = "[''extra'', ''segments'']"
  have b1: "\<forall>s \<in> set (?qs @ ?fs). CHR ''/'' \<notin> set s" by simp
  have b2: "req_path ?e = join_q (?qs @ ?fs)" by (simp add: pathContext_def mkContext_def)
  have b3a: "\<forall>u \<in> set (dispatchers ?d).
      dt_match u (dt_state u) ?e (join_q (?qs @ take 1 ?fs)) (map (\<lambda>s. s) (drop 1 ?fs)) =
        (NoMatch, ?e)"
    by code_simp
  have b3b: "\<forall>u \<in> set (dispatchers ?d).
      dt_match u (dt_state u) ?e (join_q (?qs @ take 2 ?fs)) (map (\<lambda>s. s) (drop 2 ?fs)) =
        (NoMatch, ?e)"
    by code_simp
  have b3: "\<forall>k. 0 < k \<and> k \<le> length ?fs \<longrightarrow>
       (\<forall>u \<in> set (dispatchers ?d).
          dt_match u (dt_state u) ?e (join_q (?qs @ take k ?fs)) (map (\<lambda>s. s) (drop k ?fs)) =
            (NoMatch, ?e))"
  proof (intro allI impI)
    fix k :: nat assume "0 < k \<and> k \<le> length ?fs"
    then have "k = 1 \<or> k = 2" by auto
    with b3a b3b show "\<forall>u \<in> set (dispatchers ?d).
          dt_match u (dt_state u) ?e (join_q (?qs @ take k ?fs)) (map (\<lambda>s. s) (drop k ?fs)) =
            (NoMatch, ?e)"
      by metis
  qed
  have b4: "\<forall>u \<in> set [?t1]. dt_match u (dt_state u) ?e (join_q ?qs) (map (\<lambda>s. s) ?fs) =
      (NoMatch, ?e)"
    by code_simp
  have b5: "dt_match ?t2 (dt_state ?t2) ?e (join_q ?qs) (map (\<lambda>s. s) ?fs) = (ExactMatch, ?e')"
    by code_simp
  from prepareAction_longest_prefix_first
    [of ?d "\<lambda>s. s" ?e ?qs ?fs "[?t1]" ?t2 "[?t3]" ?e'] b1 b2 b3 ds(1) b4 b5
  have 1: "prepareAction ?d (\<lambda>s. s) ?e = Inr ?e'" by blast
  \<comment> \<open>a longer prefix is the result, though a dispatch type registered later knows it\<close>
  let ?c = "pathContext ''/a/b/c/d''"
  let ?c' = "?c\<lparr>ctx_action := Some (mkAction ''other'' ''c''),
             req_args := [''d''], req_match := ''/a/b/c''\<rparr>"
  let ?ps = "[[], ''a'', ''b'', ''c'']"
  let ?es = "[''d'']"
  have a1: "\<forall>s \<in> set (?ps @ ?es). CHR ''/'' \<notin> set s" by simp
  have a2: "req_path ?c = join_q (?ps @ ?es)" by (simp add: pathContext_def mkContext_def)
  have a3k: "\<forall>u \<in> set (dispatchers ?d).
      dt_match u (dt_state u) ?c (join_q (?ps @ take 1 ?es)) (map (\<lambda>s. s) (drop 1 ?es)) =
        (NoMatch, ?c)"
    by code_simp
  have a3: "\<forall>k. 0 < k \<and> k \<le> length ?es \<longrightarrow>
       (\<forall>u \<in> set (dispatchers ?d).
          dt_match u (dt_state u) ?c (join_q (?ps @ take k ?es)) (map (\<lambda>s. s) (drop k ?es)) =
            (NoMatch, ?c))"
  proof (intro allI impI)
    fix k :: nat assume "0 < k \<and> k \<le> length ?es"
    then have "k = 1" by auto
    with a3k show "\<forall>u \<in> set (dispatchers ?d).
          dt_match u (dt_state u) ?c (join_q (?ps @ take k ?es)) (map (\<lambda>s. s) (drop k ?es)) =
            (NoMatch, ?c)"
      by metis
  qed
  have a4: "\<forall>u \<in> set [?t1, ?t2]. dt_match u (dt_state u) ?c (join_q ?ps) (map (\<lambda>s. s) ?es) =
      (NoMatch, ?c)"
    by code_simp
  have a5: "dt_match ?t3 (dt_state ?t3) ?c (join_q ?ps) (map (\<lambda>s. s) ?es) = (ExactMatch, ?c')"
    by code_simp
  from prepareAction_longest_prefix_first
    [of ?d "\<lambda>s. s" ?c ?ps ?es "[?t1, ?t2]" ?t3 "[]" ?c'] a1 a2 a3 ds(2) a4 a5
  have 2: "prepareAction ?d (\<lambda>s. s) ?c = Inr ?c'" by blast
  from 1 2 show ?thesis by blast
qed



end
